theory Spec2Isabelle
  imports Complex_Main
begin

section \<open>SEAT composition functions\<close>

text \<open>
  A shallow embedding of \<^verbatim>\<open>SEAT/composition_functions.py\<close>: the symbol classifier
  \<^verbatim>\<open>are_nuclides\<close> and the composition transforms \<^verbatim>\<open>unfold_composite\<close>,
  \<^verbatim>\<open>pollute\<close> and \<^verbatim>\<open>enrich\<close>.

  Modelling decisions.
  \<^item> A Python \<^verbatim>\<open>dict[str, float]\<close> is an association list in insertion order. A list
    stands for a dictionary when its keys are distinct; \<^verbatim>\<open>d[k] = v\<close> keeps the position
    of a key that is present and appends a new key at the end.
  \<^item> Abundances are Python floats in the source. They are modelled as exact rationals:
    rounding is not part of the model.
  \<^item> Every exception the source can raise is a value \<open>Inl e\<close> of the result type.
  \<^item> A set of strings is given by the list of its members in iteration order.
  \<^item> Symbols are ASCII strings: a character is alphabetic when it is one of the 52
    ASCII letters and a digit when it is one of \<^verbatim>\<open>0\<close> to \<^verbatim>\<open>9\<close>.
\<close>

subsection \<open>Errors and dictionaries\<close>

datatype py_error = IndexError | KeyError | ZeroDivisionError | AttributeError

type_synonym composition = "(string \<times> rat) list"

definition is_dict :: "('k \<times> 'v) list \<Rightarrow> bool" where
  "is_dict d = distinct (map fst d)"

definition dict_keys :: "('k \<times> 'v) list \<Rightarrow> 'k list" where
  "dict_keys d = map fst d"

definition dict_values :: "('k \<times> 'v) list \<Rightarrow> 'v list" where
  "dict_values d = map snd d"

text \<open>\<^verbatim>\<open>d[k]\<close>: raises \<^verbatim>\<open>KeyError\<close> when the key is absent.\<close>

definition dict_get :: "('k \<times> 'v) list \<Rightarrow> 'k \<Rightarrow> py_error + 'v" where
  "dict_get d k = (case map_of d k of None \<Rightarrow> Inl KeyError | Some v \<Rightarrow> Inr v)"

text \<open>\<^verbatim>\<open>d[k] = v\<close>.\<close>

primrec dict_set :: "('k \<times> 'v) list \<Rightarrow> 'k \<Rightarrow> 'v \<Rightarrow> ('k \<times> 'v) list" where
  "dict_set [] k v = [(k, v)]"
| "dict_set (p # ps) k v = (if fst p = k then (k, v) # ps else p # dict_set ps k v)"

text \<open>Sequencing of computations that may raise.\<close>

definition bind_py :: "py_error + 'a \<Rightarrow> ('a \<Rightarrow> py_error + 'b) \<Rightarrow> py_error + 'b" where
  "bind_py m f = (case m of Inl e \<Rightarrow> Inl e | Inr x \<Rightarrow> f x)"

text \<open>\<^verbatim>\<open>a / b\<close> on numbers: raises \<^verbatim>\<open>ZeroDivisionError\<close> when the divisor is zero.\<close>

definition py_div :: "rat \<Rightarrow> rat \<Rightarrow> py_error + rat" where
  "py_div a b = (if b = 0 then Inl ZeroDivisionError else Inr (a / b))"

subsection \<open>Symbol classifiers\<close>

definition ascii_letters :: string where
  "ascii_letters = ''ABCDEFGHIJKLMNOPQRSTUVWXYZabcdefghijklmnopqrstuvwxyz''"

definition ascii_digits :: string where
  "ascii_digits = ''0123456789''"

definition char_isalpha :: "char \<Rightarrow> bool" where
  "char_isalpha c = (c \<in> set ascii_letters)"

definition char_isdigit :: "char \<Rightarrow> bool" where
  "char_isdigit c = (c \<in> set ascii_digits)"

definition char_isalnum :: "char \<Rightarrow> bool" where
  "char_isalnum c = (char_isalpha c \<or> char_isdigit c)"

text \<open>\<^verbatim>\<open>str.isalpha\<close> and \<^verbatim>\<open>str.isalnum\<close>: all characters are in the class and there
  is at least one character.\<close>

definition isalpha :: "string \<Rightarrow> bool" where
  "isalpha k = (k \<noteq> [] \<and> list_all char_isalpha k)"

definition isalnum :: "string \<Rightarrow> bool" where
  "isalnum k = (k \<noteq> [] \<and> list_all char_isalnum k)"

text \<open>\<^verbatim>\<open>np.prod\<close> of a list of booleans: the product of the list with \<^verbatim>\<open>True\<close> as 1 and
  \<^verbatim>\<open>False\<close> as 0; the product of the empty list is 1. \<^verbatim>\<open>bool(x)\<close> of a number is
  \<open>x \<noteq> 0\<close>.\<close>

definition np_prod :: "bool list \<Rightarrow> int" where
  "np_prod bs = prod_list (map of_bool bs)"

definition are_elements :: "string list \<Rightarrow> bool" where
  "are_elements keys = (np_prod (map isalpha keys) \<noteq> 0)"

definition are_nuclides :: "string list \<Rightarrow> bool" where
  "are_nuclides keys =
     (np_prod (map isalnum keys) \<noteq> 0 \<and> np_prod (map (\<lambda>k. \<not> isalpha k) keys) \<noteq> 0)"

subsection \<open>Composite unfolding\<close>

text \<open>
  \<^verbatim>\<open>{k: v * share for element, share in composite.items()
                   for k, v in getattr(SEAT.natural, element).items()}\<close>

  The natural-abundance table of the module \<^verbatim>\<open>SEAT.natural\<close> is an external
  collaborator. It is the parameter \<open>natural\<close> of the model, with \<open>None\<close> for an
  element that has no attribute there (\<^verbatim>\<open>getattr\<close> raises \<^verbatim>\<open>AttributeError\<close>).
\<close>

fun unfold_element :: "rat \<Rightarrow> composition \<Rightarrow> composition \<Rightarrow> composition" where
  "unfold_element share [] result = result"
| "unfold_element share ((k, v) # rest) result =
     unfold_element share rest (dict_set result k (v * share))"

fun unfold_loop ::
  "(string \<Rightarrow> composition option) \<Rightarrow> composition \<Rightarrow> composition \<Rightarrow> py_error + composition"
where
  "unfold_loop natural [] result = Inr result"
| "unfold_loop natural ((element, share) # rest) result =
     (case natural element of
        None \<Rightarrow> Inl AttributeError
      | Some split \<Rightarrow> unfold_loop natural rest (unfold_element share split result))"

definition unfold_composite ::
  "(string \<Rightarrow> composition option) \<Rightarrow> composition \<Rightarrow> py_error + composition" where
  "unfold_composite natural composite = unfold_loop natural composite []"

subsection \<open>Pollution\<close>

text \<open>
  \<^verbatim>\<open>polluted = pollutants.copy()
  for nuclide, share in abundance.items():
      polluted[nuclide] = abundance[nuclide] - abundance[nuclide] * sum(pollutants.values())
  return polluted\<close>
\<close>

fun pollute_loop ::
  "composition \<Rightarrow> composition \<Rightarrow> composition \<Rightarrow> composition \<Rightarrow> py_error + composition"
where
  "pollute_loop abundance pollutants [] polluted = Inr polluted"
| "pollute_loop abundance pollutants ((nuclide, share) # rest) polluted =
     bind_py (dict_get abundance nuclide) (\<lambda>a.
       pollute_loop abundance pollutants rest
         (dict_set polluted nuclide (a - a * sum_list (dict_values pollutants))))"

definition pollute :: "composition \<Rightarrow> composition \<Rightarrow> py_error + composition" where
  "pollute abundance pollutants = pollute_loop abundance pollutants abundance pollutants"

subsection \<open>Enrichment\<close>

text \<open>
  The function \<^verbatim>\<open>nuclide2element\<close> of the module \<^verbatim>\<open>SEAT.nuclides\<close> is an external
  collaborator. It is the parameter \<open>n2e\<close> of the model.

  \<^verbatim>\<open>[v - abundance[k] for k, v in enrichers.items()]\<close>
\<close>

fun enrich_excess :: "composition \<Rightarrow> composition \<Rightarrow> py_error + rat list" where
  "enrich_excess abundance [] = Inr []"
| "enrich_excess abundance ((k, v) # rest) =
     bind_py (dict_get abundance k) (\<lambda>a.
       bind_py (enrich_excess abundance rest) (\<lambda>ds. Inr ((v - a) # ds)))"

text \<open>
  \<^verbatim>\<open>[v for k, v in abundance.items()
      if nuclide2element(k) == enriched_element and k not in enrichers.keys()]\<close>
\<close>

definition enrich_rest ::
  "(string \<Rightarrow> string) \<Rightarrow> string \<Rightarrow> composition \<Rightarrow> composition \<Rightarrow> rat list" where
  "enrich_rest n2e enriched_element abundance enrichers =
     map snd (filter (\<lambda>(k, v). n2e k = enriched_element \<and> k \<notin> set (dict_keys enrichers))
                abundance)"

text \<open>The value stored for one nuclide: the three branches of the loop body.\<close>

definition enrich_value ::
  "(string \<Rightarrow> string) \<Rightarrow> string \<Rightarrow> composition \<Rightarrow> composition \<Rightarrow> string \<Rightarrow> rat
     \<Rightarrow> py_error + rat" where
  "enrich_value n2e enriched_element abundance enrichers nuclide share =
     (if nuclide \<in> set (dict_keys enrichers) then dict_get enrichers nuclide
      else if n2e nuclide \<noteq> enriched_element then dict_get abundance nuclide
      else
        bind_py (dict_get abundance nuclide) (\<lambda>a.
        bind_py (enrich_excess abundance enrichers) (\<lambda>ds.
        bind_py (py_div (sum_list ds * share)
                   (sum_list (enrich_rest n2e enriched_element abundance enrichers))) (\<lambda>q.
        Inr (a - q)))))"

fun enrich_loop ::
  "(string \<Rightarrow> string) \<Rightarrow> string \<Rightarrow> composition \<Rightarrow> composition \<Rightarrow> composition \<Rightarrow> composition
     \<Rightarrow> py_error + composition" where
  "enrich_loop n2e enriched_element abundance enrichers [] enriched = Inr enriched"
| "enrich_loop n2e enriched_element abundance enrichers ((nuclide, share) # rest) enriched =
     bind_py (enrich_value n2e enriched_element abundance enrichers nuclide share) (\<lambda>x.
       enrich_loop n2e enriched_element abundance enrichers rest (dict_set enriched nuclide x))"

text \<open>\<^verbatim>\<open>list(enrichers.keys())[0]\<close> raises \<^verbatim>\<open>IndexError\<close> on an empty dictionary.\<close>

definition enrich ::
  "(string \<Rightarrow> string) \<Rightarrow> composition \<Rightarrow> composition \<Rightarrow> py_error + composition" where
  "enrich n2e abundance enrichers =
     (case dict_keys enrichers of
        [] \<Rightarrow> Inl IndexError
      | first # _ \<Rightarrow> enrich_loop n2e (n2e first) abundance enrichers abundance [])"

text \<open>The total abundance that a composition holds in the nuclides of one element.\<close>

definition element_total :: "(string \<Rightarrow> string) \<Rightarrow> string \<Rightarrow> composition \<Rightarrow> rat" where
  "element_total n2e element d =
     sum_list (map snd (filter (\<lambda>(k, v). n2e k = element) d))"

text \<open>Modelled from the spec: the function \<^verbatim>\<open>nuclide2element\<close> of the module
  \<^verbatim>\<open>SEAT.nuclides\<close>, an external collaborator with the interface
  \<^verbatim>\<open>nuclide_to_element(nuclide_symbol) -> element_symbol\<close>, where a nuclide symbol is an
  element symbol plus a mass number (\<^verbatim>\<open>Fe56\<close>): the element symbol is the leading
  alphabetic part of the nuclide symbol. It instantiates \<open>n2e\<close> on concrete inputs
  only.\<close>

definition nuclide2element :: "string \<Rightarrow> string" where
  "nuclide2element nuclide = takeWhile char_isalpha nuclide"

section \<open>Basic facts\<close>

lemma map_of_dict_set: "map_of (dict_set d k v) = (map_of d)(k \<mapsto> v)"
  by (induction d) (auto simp: fun_eq_iff)

lemma dict_set_keys: "fst ` set (dict_set d k v) = insert k (fst ` set d)"
  by (induction d) auto

lemma dict_set_append: "k \<notin> fst ` set d \<Longrightarrow> dict_set d k v = d @ [(k, v)]"
  by (induction d) auto

lemma bind_py_simps:
  "bind_py (Inl e) f = Inl e"
  "bind_py (Inr x) f = f x"
  by (simp_all add: bind_py_def)

lemma dict_get_Some: "map_of d k = Some v \<Longrightarrow> dict_get d k = Inr v"
  by (simp add: dict_get_def)

lemma dict_get_None: "map_of d k = None \<Longrightarrow> dict_get d k = Inl KeyError"
  by (simp add: dict_get_def)

lemma np_prod_nonzero: "np_prod bs \<noteq> 0 \<longleftrightarrow> (\<forall>b\<in>set bs. b)"
  by (induction bs) (auto simp: np_prod_def)

lemma are_nuclides_iff: "are_nuclides keys \<longleftrightarrow> (\<forall>k\<in>set keys. isalnum k \<and> \<not> isalpha k)"
  by (auto simp: are_nuclides_def np_prod_nonzero)

lemma digit_not_alpha: "char_isdigit c \<Longrightarrow> \<not> char_isalpha c"
  by (auto simp: char_isdigit_def char_isalpha_def ascii_digits_def ascii_letters_def)

lemmas char_class_defs =
  isalnum_def isalpha_def char_isalnum_def char_isalpha_def char_isdigit_def
  ascii_letters_def ascii_digits_def

subsection \<open>The pollution loop\<close>

lemma map_of_keys_iff: "map_of d k \<noteq> None \<longleftrightarrow> k \<in> set (dict_keys d)"
  by (simp add: dict_keys_def map_of_eq_None_iff)

lemma pollute_loop_lookup:
  assumes "set (dict_keys items) \<subseteq> set (dict_keys abundance)"
  shows "\<exists>r. pollute_loop abundance pollutants items acc = Inr r
           \<and> set (dict_keys r) = set (dict_keys acc) \<union> set (dict_keys items)
           \<and> (\<forall>n. map_of r n =
                 (if n \<in> set (dict_keys items)
                  then map_option (\<lambda>a. a - a * sum_list (dict_values pollutants))
                         (map_of abundance n)
                  else map_of acc n))"
  using assms
proof (induction items arbitrary: acc)
  case Nil
  then show ?case by (simp add: dict_keys_def)
next
  case (Cons p items)
  obtain nuclide share where p: "p = (nuclide, share)" by (cases p)
  from Cons.prems p have "nuclide \<in> set (dict_keys abundance)" by (simp add: dict_keys_def)
  then obtain a where a: "map_of abundance nuclide = Some a"
    using map_of_keys_iff [of abundance nuclide] by auto
  let ?acc = "dict_set acc nuclide (a - a * sum_list (dict_values pollutants))"
  from Cons.prems have sub: "set (dict_keys items) \<subseteq> set (dict_keys abundance)"
    by (simp add: dict_keys_def)
  from Cons.IH [OF sub, of ?acc] obtain r where
    r: "pollute_loop abundance pollutants items ?acc = Inr r"
    and k: "set (dict_keys r) = set (dict_keys ?acc) \<union> set (dict_keys items)"
    and v: "\<forall>n. map_of r n =
                 (if n \<in> set (dict_keys items)
                  then map_option (\<lambda>a. a - a * sum_list (dict_values pollutants))
                         (map_of abundance n)
                  else map_of ?acc n)" by blast
  have "pollute_loop abundance pollutants (p # items) acc = Inr r"
    using r a p by (simp add: dict_get_Some bind_py_simps)
  moreover have "set (dict_keys r) = set (dict_keys acc) \<union> set (dict_keys (p # items))"
    using k p dict_set_keys [of acc nuclide] by (auto simp: dict_keys_def)
  moreover have "\<forall>n. map_of r n =
                 (if n \<in> set (dict_keys (p # items))
                  then map_option (\<lambda>a. a - a * sum_list (dict_values pollutants))
                         (map_of abundance n)
                  else map_of acc n)"
    using v p a by (auto simp: dict_keys_def map_of_dict_set)
  ultimately show ?case by blast
qed

lemma pollute_loop_append:
  assumes "distinct (dict_keys acc @ dict_keys items)"
    and "\<forall>(n, share) \<in> set items. map_of abundance n = Some share"
  shows "pollute_loop abundance pollutants items acc =
           Inr (acc @ map (\<lambda>(n, share). (n, share - share * sum_list (dict_values pollutants)))
                        items)"
  using assms
proof (induction items arbitrary: acc)
  case Nil
  then show ?case by simp
next
  case (Cons p items)
  obtain nuclide share where p: "p = (nuclide, share)" by (cases p)
  let ?x = "share - share * sum_list (dict_values pollutants)"
  from Cons.prems p have a: "map_of abundance nuclide = Some share" by simp
  from Cons.prems p have fresh: "nuclide \<notin> fst ` set acc" by (auto simp: dict_keys_def)
  then have app: "dict_set acc nuclide ?x = acc @ [(nuclide, ?x)]" by (rule dict_set_append)
  from Cons.prems p have d: "distinct (dict_keys (acc @ [(nuclide, ?x)]) @ dict_keys items)"
    by (auto simp: dict_keys_def)
  from Cons.prems have rest: "\<forall>(n, share) \<in> set items. map_of abundance n = Some share"
    by simp
  show ?case
    using Cons.IH [OF d rest] a p app by (simp add: dict_get_Some bind_py_simps)
qed

subsection \<open>The enrichment loop\<close>

lemma bind_py_Inr_iff: "bind_py m f = Inr y \<longleftrightarrow> (\<exists>x. m = Inr x \<and> f x = Inr y)"
  by (cases m) (simp_all add: bind_py_def)

lemma dict_get_Inr_iff: "dict_get d k = Inr v \<longleftrightarrow> map_of d k = Some v"
  by (simp add: dict_get_def split: option.splits)

lemma is_dict_lookup: "is_dict d \<Longrightarrow> (k, v) \<in> set d \<Longrightarrow> map_of d k = Some v"
  by (simp add: is_dict_def)

lemma enrich_loop_keys:
  "enrich_loop n2e E abundance enrichers items acc = Inr r \<Longrightarrow>
     set (dict_keys r) = set (dict_keys acc) \<union> set (dict_keys items)"
proof (induction items arbitrary: acc)
  case Nil
  then show ?case by (simp add: dict_keys_def)
next
  case (Cons p items)
  obtain nuclide share where p: "p = (nuclide, share)" by (cases p)
  from Cons.prems p obtain x where
    "enrich_loop n2e E abundance enrichers items (dict_set acc nuclide x) = Inr r"
    by (auto simp: bind_py_Inr_iff)
  from Cons.IH [OF this] p dict_set_keys [of acc nuclide x] show ?case
    by (auto simp: dict_keys_def)
qed

lemma enrich_loop_frame:
  assumes "enrich_loop n2e E abundance enrichers items acc = Inr r"
    and "n \<notin> set (dict_keys enrichers)" and "n2e n \<noteq> E"
    and "n \<in> set (dict_keys items) \<or> map_of acc n = map_of abundance n"
  shows "map_of r n = map_of abundance n"
  using assms(1,4)
proof (induction items arbitrary: acc)
  case Nil
  then show ?case by (simp add: dict_keys_def)
next
  case (Cons p items)
  obtain nuclide share where p: "p = (nuclide, share)" by (cases p)
  from Cons.prems(1) p obtain x where
    x: "enrich_value n2e E abundance enrichers nuclide share = Inr x"
    and rest: "enrich_loop n2e E abundance enrichers items (dict_set acc nuclide x) = Inr r"
    by (auto simp: bind_py_Inr_iff)
  have "n \<in> set (dict_keys items) \<or> map_of (dict_set acc nuclide x) n = map_of abundance n"
  proof (cases "n = nuclide")
    case True
    with x assms(2,3) have "map_of abundance n = Some x"
      by (simp add: enrich_value_def dict_get_Inr_iff)
    with True show ?thesis by (simp add: map_of_dict_set)
  next
    case False
    with Cons.prems(2) p show ?thesis by (auto simp: dict_keys_def map_of_dict_set)
  qed
  from Cons.IH [OF rest this] show ?case .
qed

lemma enrich_loop_append:
  assumes "distinct (dict_keys acc @ dict_keys items)"
    and "\<forall>(n, share) \<in> set items.
           enrich_value n2e E abundance enrichers n share = Inr (f n share)"
  shows "enrich_loop n2e E abundance enrichers items acc =
           Inr (acc @ map (\<lambda>(n, share). (n, f n share)) items)"
  using assms
proof (induction items arbitrary: acc)
  case Nil
  then show ?case by simp
next
  case (Cons p items)
  obtain nuclide share where p: "p = (nuclide, share)" by (cases p)
  let ?x = "f nuclide share"
  from Cons.prems p have x: "enrich_value n2e E abundance enrichers nuclide share = Inr ?x"
    by simp
  from Cons.prems p have "nuclide \<notin> fst ` set acc" by (auto simp: dict_keys_def)
  then have app: "dict_set acc nuclide ?x = acc @ [(nuclide, ?x)]" by (rule dict_set_append)
  from Cons.prems p have d: "distinct (dict_keys (acc @ [(nuclide, ?x)]) @ dict_keys items)"
    by (auto simp: dict_keys_def)
  from Cons.prems have rest: "\<forall>(n, share) \<in> set items.
           enrich_value n2e E abundance enrichers n share = Inr (f n share)" by simp
  show ?case
    using Cons.IH [OF d rest] x p app by (simp add: bind_py_simps)
qed

lemma enrich_shape:
  assumes "is_dict abundance" and "enrichers = (first, v0) # more"
    and "\<forall>(n, share) \<in> set abundance.
           enrich_value n2e (n2e first) abundance enrichers n share = Inr (f n share)"
  shows "enrich n2e abundance enrichers = Inr (map (\<lambda>(n, share). (n, f n share)) abundance)"
proof -
  from assms(1) have "distinct (dict_keys [] @ dict_keys abundance)"
    by (simp add: is_dict_def dict_keys_def)
  from enrich_loop_append [OF this assms(3)] assms(2) show ?thesis
    by (simp add: enrich_def dict_keys_def)
qed

lemma enrich_Inr_loop:
  assumes "enrich n2e abundance enrichers = Inr r"
  shows "\<exists>first v0 more. enrichers = (first, v0) # more
           \<and> enrich_loop n2e (n2e first) abundance enrichers abundance [] = Inr r"
  using assms by (cases enrichers) (auto simp: enrich_def dict_keys_def)

section \<open>Symbol classification\<close>

text \<open>
  Claim C9. If every string of the set is made of alphanumeric characters only and
  contains at least one digit, \<open>are_nuclides\<close> is true. If the set contains a string that
  is purely alphabetic, or a string with a character that is not alphanumeric,
  \<open>are_nuclides\<close> is false. On the empty set \<open>are_nuclides\<close> is true.
\<close>

theorem are_nuclides_format:
  "((\<forall>k\<in>set ks. list_all char_isalnum k \<and> list_ex char_isdigit k) \<longrightarrow> are_nuclides ks)
   \<and> ((\<exists>k\<in>set ks'. list_all char_isalpha k \<or> list_ex (\<lambda>c. \<not> char_isalnum c) k)
        \<longrightarrow> \<not> are_nuclides ks')
   \<and> are_nuclides []"
proof (intro conjI impI)
  assume h: "\<forall>k\<in>set ks. list_all char_isalnum k \<and> list_ex char_isdigit k"
  show "are_nuclides ks"
    unfolding are_nuclides_iff
  proof (intro ballI conjI)
    fix k assume "k \<in> set ks"
    with h have a: "list_all char_isalnum k" and d: "list_ex char_isdigit k" by auto
    from d obtain c where c: "c \<in> set k" "char_isdigit c" by (auto simp: list_ex_iff)
    then have "k \<noteq> []" by auto
    with a show "isalnum k" by (simp add: isalnum_def)
    from c digit_not_alpha have "\<not> list_all char_isalpha k" by (auto simp: list_all_iff)
    then show "\<not> isalpha k" by (simp add: isalpha_def)
  qed
next
  assume "\<exists>k\<in>set ks'. list_all char_isalpha k \<or> list_ex (\<lambda>c. \<not> char_isalnum c) k"
  then obtain k where k: "k \<in> set ks'"
    and d: "list_all char_isalpha k \<or> list_ex (\<lambda>c. \<not> char_isalnum c) k" by blast
  have "\<not> (isalnum k \<and> \<not> isalpha k)"
  proof (cases "k = []")
    case True
    then show ?thesis by (simp add: isalnum_def)
  next
    case False
    with d show ?thesis
      by (auto simp: isalnum_def isalpha_def list_all_iff list_ex_iff)
  qed
  with k show "\<not> are_nuclides ks'" unfolding are_nuclides_iff by blast
next
  show "are_nuclides []" by (simp add: are_nuclides_iff)
qed

theorem are_nuclides_format_witness:
  "list_all (\<lambda>k. list_all char_isalnum k \<and> list_ex char_isdigit k) [''U235'', ''C12'']
   \<and> are_nuclides [''U235'', ''C12'']
   \<and> (\<exists>k\<in>set [''U235'', ''Fe'']. list_all char_isalpha k \<or> list_ex (\<lambda>c. \<not> char_isalnum c) k)
   \<and> \<not> are_nuclides [''U235'', ''Fe'']
   \<and> (\<exists>k\<in>set [''C-12'']. list_all char_isalpha k \<or> list_ex (\<lambda>c. \<not> char_isalnum c) k)
   \<and> \<not> are_nuclides [''C-12'']"
  using are_nuclides_format [of "[''U235'', ''C12'']" "[''U235'', ''Fe'']"]
        are_nuclides_format [of "[]" "[''C-12'']"]
  by (simp add: char_class_defs)

section \<open>Pollution\<close>

text \<open>
  Claim C1 reads: a nuclide that is a key of both \<open>abundance\<close> and \<open>pollutants\<close> keeps
  its pollutant value. The loop runs after the copy of \<open>pollutants\<close> and assigns every
  key of \<open>abundance\<close>, so the pollutant value of a shared key is overwritten: with
  \<open>abundance = {A: 1/2, B: 1/2}\<close> and \<open>pollutants = {A: 1/10}\<close> the result maps \<open>A\<close>
  to \<open>9/20\<close>, not to \<open>1/10\<close>.
\<close>

theorem pollute_shared_key_counterexample:
  "pollute [(''A'', 1/2), (''B'', 1/2)] [(''A'', 1/10)] = Inr [(''A'', 9/20), (''B'', 9/20)]"
  by (simp add: pollute_def bind_py_def dict_get_def dict_values_def)

text \<open>
  Claim C1, amended. For a nuclide \<open>n\<close> that is a key of both mappings, \<open>pollute\<close>
  returns a mapping that sends \<open>n\<close> to
  \<open>abundance[n] - abundance[n] * sum(pollutants.values())\<close>: the rescaled base value
  replaces the pollutant entry.
\<close>

theorem pollute_shared_key:
  assumes "map_of abundance n = Some a" and "map_of pollutants n = Some p"
  shows "\<exists>r. pollute abundance pollutants = Inr r
           \<and> map_of r n = Some (a - a * sum_list (dict_values pollutants))"
proof -
  from pollute_loop_lookup [of abundance abundance pollutants pollutants]
  obtain r where r: "pollute_loop abundance pollutants abundance pollutants = Inr r"
    and v: "\<forall>n. map_of r n =
                 (if n \<in> set (dict_keys abundance)
                  then map_option (\<lambda>a. a - a * sum_list (dict_values pollutants))
                         (map_of abundance n)
                  else map_of pollutants n)" by blast
  from assms(1) have "n \<in> set (dict_keys abundance)"
    using map_of_keys_iff [of abundance n] by simp
  with v assms(1) have "map_of r n = Some (a - a * sum_list (dict_values pollutants))"
    by simp
  with r show ?thesis by (simp add: pollute_def)
qed

theorem pollute_shared_key_witness:
  "\<exists>r. pollute [(''A'', 1/2), (''B'', 1/2)] [(''A'', 1/10)] = Inr r
       \<and> map_of r ''A'' = Some (9/20)"
  using pollute_shared_key [of "[(''A'', 1/2), (''B'', 1/2)]" "''A''" "1/2" "[(''A'', 1/10)]" "1/10"]
  by (simp add: dict_values_def)

text \<open>
  Claim C6. When the key sets of \<open>abundance\<close> and \<open>pollutants\<close> are disjoint, \<open>pollute\<close>
  returns a mapping that sends every key \<open>n\<close> of \<open>abundance\<close> to
  \<open>abundance[n] * (1 - sum(pollutants.values()))\<close> and every key of \<open>pollutants\<close> to its
  pollutant value. In particular \<open>pollute {A: 1/2, B: 1/2} {C: 1/10}\<close> is
  \<open>{C: 1/10, A: 9/20, B: 9/20}\<close>, and \<open>pollute base {}\<close> is \<open>base\<close> for every
  dictionary \<open>base\<close>.
\<close>

theorem pollute_disjoint_keys:
  "(set (dict_keys abundance) \<inter> set (dict_keys pollutants) = {} \<longrightarrow>
      (\<exists>r. pollute abundance pollutants = Inr r
         \<and> (\<forall>n a. map_of abundance n = Some a \<longrightarrow>
               map_of r n = Some (a * (1 - sum_list (dict_values pollutants))))
         \<and> (\<forall>n p. map_of pollutants n = Some p \<longrightarrow> map_of r n = Some p)))
   \<and> pollute [(''A'', 1/2), (''B'', 1/2)] [(''C'', 1/10)]
        = Inr [(''C'', 1/10), (''A'', 9/20), (''B'', 9/20)]
   \<and> (is_dict base \<longrightarrow> pollute base [] = Inr base)"
proof (intro conjI impI)
  assume disj: "set (dict_keys abundance) \<inter> set (dict_keys pollutants) = {}"
  from pollute_loop_lookup [of abundance abundance pollutants pollutants]
  obtain r where r: "pollute_loop abundance pollutants abundance pollutants = Inr r"
    and v: "\<forall>n. map_of r n =
                 (if n \<in> set (dict_keys abundance)
                  then map_option (\<lambda>a. a - a * sum_list (dict_values pollutants))
                         (map_of abundance n)
                  else map_of pollutants n)" by blast
  have base: "\<forall>n a. map_of abundance n = Some a \<longrightarrow>
               map_of r n = Some (a * (1 - sum_list (dict_values pollutants)))"
  proof (intro allI impI)
    fix n a assume a: "map_of abundance n = Some a"
    then have "n \<in> set (dict_keys abundance)" using map_of_keys_iff [of abundance n] by simp
    with v a show "map_of r n = Some (a * (1 - sum_list (dict_values pollutants)))"
      by (simp add: algebra_simps)
  qed
  have pol: "\<forall>n p. map_of pollutants n = Some p \<longrightarrow> map_of r n = Some p"
  proof (intro allI impI)
    fix n p assume p: "map_of pollutants n = Some p"
    then have "n \<in> set (dict_keys pollutants)" using map_of_keys_iff [of pollutants n] by simp
    with disj have "n \<notin> set (dict_keys abundance)" by blast
    with v p show "map_of r n = Some p" by simp
  qed
  from r base pol
  show "\<exists>r. pollute abundance pollutants = Inr r
         \<and> (\<forall>n a. map_of abundance n = Some a \<longrightarrow>
               map_of r n = Some (a * (1 - sum_list (dict_values pollutants))))
         \<and> (\<forall>n p. map_of pollutants n = Some p \<longrightarrow> map_of r n = Some p)"
    unfolding pollute_def by blast
next
  show "pollute [(''A'', 1/2), (''B'', 1/2)] [(''C'', 1/10)]
        = Inr [(''C'', 1/10), (''A'', 9/20), (''B'', 9/20)]"
    by (simp add: pollute_def bind_py_def dict_get_def dict_values_def)
next
  assume "is_dict base"
  then have d: "distinct (dict_keys [] @ dict_keys base)" by (simp add: is_dict_def dict_keys_def)
  from \<open>is_dict base\<close> have l: "\<forall>(n, share) \<in> set base. map_of base n = Some share"
    by (auto simp: is_dict_def)
  have "map (\<lambda>(n, share). (n, share - share * sum_list (dict_values []))) base = base"
    by (induction base) (auto simp: dict_values_def)
  with pollute_loop_append [OF d l, of "[]"] show "pollute base [] = Inr base"
    by (simp add: pollute_def)
qed

theorem pollute_disjoint_keys_witness:
  "set (dict_keys ([(''U235'', 1/4), (''U238'', 3/4)] :: composition))
      \<inter> set (dict_keys ([(''B10'', 1/5)] :: composition)) = {}
   \<and> (\<exists>r. pollute [(''U235'', 1/4), (''U238'', 3/4)] [(''B10'', 1/5)] = Inr r
         \<and> map_of r ''U235'' = Some (1/5) \<and> map_of r ''U238'' = Some (3/5)
         \<and> map_of r ''B10'' = Some (1/5))
   \<and> is_dict ([(''U235'', 1/4), (''U238'', 3/4)] :: composition)
   \<and> pollute [(''U235'', 1/4), (''U238'', 3/4)] [] = Inr [(''U235'', 1/4), (''U238'', 3/4)]"
proof -
  let ?ab = "[(''U235'', 1/4), (''U238'', 3/4)] :: composition"
  let ?pol = "[(''B10'', 1/5)] :: composition"
  note inst = pollute_disjoint_keys [of ?ab ?pol ?ab]
  have disj: "set (dict_keys ?ab) \<inter> set (dict_keys ?pol) = {}" by (simp add: dict_keys_def)
  have dict: "is_dict ?ab" by (simp add: is_dict_def)
  from inst [THEN conjunct1, rule_format, OF disj] obtain r where r: "pollute ?ab ?pol = Inr r"
    and base: "\<forall>n a. map_of ?ab n = Some a \<longrightarrow>
                 map_of r n = Some (a * (1 - sum_list (dict_values ?pol)))"
    and pol: "\<forall>n p. map_of ?pol n = Some p \<longrightarrow> map_of r n = Some p"
    by (elim exE conjE)
  from base [rule_format, of "''U235''" "1/4"] have u5: "map_of r ''U235'' = Some (1/5)"
    by (simp add: dict_values_def)
  from base [rule_format, of "''U238''" "3/4"] have u8: "map_of r ''U238'' = Some (3/5)"
    by (simp add: dict_values_def)
  from pol [rule_format, of "''B10''" "1/5"] have b: "map_of r ''B10'' = Some (1/5)"
    by simp
  from r u5 u8 b have ex: "\<exists>r. pollute ?ab ?pol = Inr r
         \<and> map_of r ''U235'' = Some (1/5) \<and> map_of r ''U238'' = Some (3/5)
         \<and> map_of r ''B10'' = Some (1/5)" by (intro exI [of _ r] conjI)
  from inst [THEN conjunct2, THEN conjunct2, rule_format, OF dict]
  have idn: "pollute ?ab [] = Inr ?ab" .
  from disj ex dict idn show ?thesis by (intro conjI)
qed

section \<open>Enrichment\<close>

lemmas enrich_eval_defs =
  enrich_def enrich_value_def enrich_rest_def bind_py_def dict_get_def dict_keys_def
  py_div_def nuclide2element_def char_isalpha_def ascii_letters_def

text \<open>
  Claim C10. Whenever \<open>enrich\<close> returns a mapping, its key set is the key set of
  \<open>abundance\<close>; so a key of \<open>enrichers\<close> that is not a key of \<open>abundance\<close> is not a key of
  the result, and the fraction imposed for it is dropped.
\<close>

theorem enrich_keys:
  assumes "enrich n2e abundance enrichers = Inr r"
  shows "set (dict_keys r) = set (dict_keys abundance)
         \<and> (\<forall>k\<in>set (dict_keys enrichers).
               k \<notin> set (dict_keys abundance) \<longrightarrow> k \<notin> set (dict_keys r))"
proof -
  from enrich_Inr_loop [OF assms] obtain first where
    "enrich_loop n2e (n2e first) abundance enrichers abundance [] = Inr r" by blast
  from enrich_loop_keys [OF this] have "set (dict_keys r) = set (dict_keys abundance)"
    by (simp add: dict_keys_def)
  then show ?thesis by simp
qed

theorem enrich_keys_witness:
  "enrich nuclide2element [(''U235'', 1/4), (''O16'', 1/2)] [(''U235'', 3/10), (''U238'', 1/10)]
     = Inr [(''U235'', 3/10), (''O16'', 1/2)]
   \<and> set (dict_keys [(''U235'', 3/10 :: rat), (''O16'', 1/2)])
       = set (dict_keys [(''U235'', 1/4 :: rat), (''O16'', 1/2)])
   \<and> ''U238'' \<notin> set (dict_keys [(''U235'', 3/10 :: rat), (''O16'', 1/2)])"
proof -
  have run: "enrich nuclide2element [(''U235'', 1/4), (''O16'', 1/2)]
               [(''U235'', 3/10), (''U238'', 1/10)] = Inr [(''U235'', 3/10), (''O16'', 1/2)]"
    by (simp add: enrich_eval_defs)
  from enrich_keys [OF run] have
    "set (dict_keys [(''U235'', 3/10 :: rat), (''O16'', 1/2)])
       = set (dict_keys [(''U235'', 1/4 :: rat), (''O16'', 1/2)])"
    and "\<forall>k\<in>set (dict_keys [(''U235'', 3/10 :: rat), (''U238'', 1/10)]).
               k \<notin> set (dict_keys [(''U235'', 1/4 :: rat), (''O16'', 1/2)])
               \<longrightarrow> k \<notin> set (dict_keys [(''U235'', 3/10 :: rat), (''O16'', 1/2)])"
    by (rule conjunct1, rule conjunct2)
  then have "set (dict_keys [(''U235'', 3/10 :: rat), (''O16'', 1/2)])
       = set (dict_keys [(''U235'', 1/4 :: rat), (''O16'', 1/2)])"
    and "''U238'' \<notin> set (dict_keys [(''U235'', 3/10 :: rat), (''O16'', 1/2)])"
    by (simp_all add: dict_keys_def)
  with run show ?thesis by (intro conjI)
qed

text \<open>
  Claim C4. Let \<open>enrichers\<close> be non-empty with first key \<open>first\<close>, and let \<open>enrich\<close> return
  the mapping \<open>r\<close>. A key \<open>n\<close> of \<open>abundance\<close> that is not a key of \<open>enrichers\<close> and whose
  element differs from the element of \<open>first\<close> has the same value in \<open>r\<close> as in
  \<open>abundance\<close>.
\<close>

theorem enrich_other_elements:
  assumes "enrich n2e abundance enrichers = Inr r"
    and "enrichers = (first, v0) # more"
    and "n \<in> set (dict_keys abundance)"
    and "n \<notin> set (dict_keys enrichers)"
    and "n2e n \<noteq> n2e first"
  shows "dict_get r n = dict_get abundance n"
proof -
  from enrich_Inr_loop [OF assms(1)] assms(2) have
    "enrich_loop n2e (n2e first) abundance enrichers abundance [] = Inr r" by simp
  from enrich_loop_frame [OF this assms(4,5)] assms(3)
  have "map_of r n = map_of abundance n" by simp
  then show ?thesis by (simp add: dict_get_def)
qed

theorem enrich_other_elements_witness:
  "enrich nuclide2element [(''U235'', 1/4), (''U238'', 1/4), (''O16'', 1/2)] [(''U235'', 3/10)]
     = Inr [(''U235'', 3/10), (''U238'', 1/5), (''O16'', 1/2)]
   \<and> dict_get [(''U235'', 3/10), (''U238'', 1/5), (''O16'', 1/2 :: rat)] ''O16'' = Inr (1/2)
   \<and> dict_get [(''U235'', 1/4), (''U238'', 1/4), (''O16'', 1/2 :: rat)] ''O16'' = Inr (1/2)"
proof -
  let ?ab = "[(''U235'', 1/4), (''U238'', 1/4), (''O16'', 1/2)] :: composition"
  let ?en = "[(''U235'', 3/10)] :: composition"
  let ?r = "[(''U235'', 3/10), (''U238'', 1/5), (''O16'', 1/2)] :: composition"
  have run: "enrich nuclide2element ?ab ?en = Inr ?r"
    by (simp add: enrich_eval_defs)
  have shape: "?en = (''U235'', 3/10) # []" by simp
  have key: "''O16'' \<in> set (dict_keys ?ab)" by (simp add: dict_keys_def)
  have free: "''O16'' \<notin> set (dict_keys ?en)" by (simp add: dict_keys_def)
  have other: "nuclide2element ''O16'' \<noteq> nuclide2element ''U235''"
    by (simp add: nuclide2element_def char_isalpha_def ascii_letters_def)
  from enrich_other_elements [OF run shape key free other]
  have eq: "dict_get ?r ''O16'' = dict_get ?ab ''O16''" .
  have "dict_get ?ab ''O16'' = Inr (1/2)" by (simp add: dict_get_def)
  with eq run show ?thesis by simp
qed

lemma enrich_excess_zero:
  assumes "\<forall>(k, v) \<in> set enrichers. map_of abundance k = Some v"
  shows "\<exists>ds. enrich_excess abundance enrichers = Inr ds \<and> sum_list ds = 0"
  using assms
proof (induction enrichers)
  case Nil
  then show ?case by simp
next
  case (Cons p enrichers)
  obtain k v where p: "p = (k, v)" by (cases p)
  from Cons.prems p have a: "dict_get abundance k = Inr v" by (simp add: dict_get_Some)
  from Cons.prems have "\<forall>(k, v) \<in> set enrichers. map_of abundance k = Some v" by simp
  from Cons.IH [OF this] obtain ds where
    "enrich_excess abundance enrichers = Inr ds" "sum_list ds = 0" by blast
  with a p show ?case by (simp add: bind_py_simps)
qed

lemma map_of_key_entry: "k \<in> set (dict_keys d) \<Longrightarrow> \<exists>v. map_of d k = Some v \<and> (k, v) \<in> set d"
  using map_of_keys_iff [of d k] by (auto dest: map_of_SomeD)

lemma map_of_not_key: "k \<notin> set (dict_keys d) \<Longrightarrow> map_of d k = None"
  using map_of_keys_iff [of d k] by simp

text \<open>
  Claim C2 reads: when every nuclide of the target element that is a key of
  \<open>abundance\<close> is also a key of \<open>enrichers\<close>, \<open>enrich\<close> fails with an explicit domain error.
  On such an input every key of the target element takes the first branch of the loop, the
  third branch with the division is never evaluated, and \<open>enrich\<close> returns a mapping:
  with \<open>abundance = {U235: 1/2, U238: 1/2}\<close> and \<open>enrichers = {U235: 1/5, U238: 4/5}\<close> the
  result is \<open>{U235: 1/5, U238: 4/5}\<close>.
\<close>

theorem enrich_all_listed_counterexample:
  "enrich nuclide2element [(''U235'', 1/2), (''U238'', 1/2)] [(''U235'', 1/5), (''U238'', 4/5)]
     = Inr [(''U235'', 1/5), (''U238'', 4/5)]"
  by (simp add: enrich_eval_defs)

text \<open>
  Claim C2, amended. Let \<open>abundance\<close> be a dictionary and \<open>enrichers\<close> be non-empty with
  first key \<open>first\<close>. If every key of \<open>abundance\<close> with the element of \<open>first\<close> is a key of
  \<open>enrichers\<close>, then \<open>enrich\<close> returns without error: the result has the keys of
  \<open>abundance\<close> in the same order, a key listed in \<open>enrichers\<close> has its enricher value and
  every other key keeps its abundance value.
\<close>

theorem enrich_all_listed:
  assumes "is_dict abundance" and "enrichers = (first, v0) # more"
    and "\<forall>n\<in>set (dict_keys abundance). n2e n = n2e first \<longrightarrow> n \<in> set (dict_keys enrichers)"
  shows "enrich n2e abundance enrichers =
           Inr (map (\<lambda>(n, share). (n, case map_of enrichers n of None \<Rightarrow> share | Some v \<Rightarrow> v))
                  abundance)"
proof (rule enrich_shape [OF assms(1,2)], clarify)
  fix n share assume mem: "(n, share) \<in> set abundance"
  then have key: "n \<in> set (dict_keys abundance)" by (force simp: dict_keys_def)
  from is_dict_lookup [OF assms(1) mem] have a: "dict_get abundance n = Inr share"
    by (rule dict_get_Some)
  show "enrich_value n2e (n2e first) abundance enrichers n share =
          Inr (case map_of enrichers n of None \<Rightarrow> share | Some v \<Rightarrow> v)"
  proof (cases "n \<in> set (dict_keys enrichers)")
    case True
    from map_of_key_entry [OF this] obtain v where "map_of enrichers n = Some v" by blast
    with True show ?thesis by (simp add: enrich_value_def dict_get_Some)
  next
    case False
    with assms(3) key have "n2e n \<noteq> n2e first" by blast
    with False a map_of_not_key [OF False] show ?thesis by (simp add: enrich_value_def)
  qed
qed

theorem enrich_all_listed_witness:
  "is_dict ([(''U235'', 1/2), (''U238'', 1/2), (''O16'', 1)] :: composition)
   \<and> enrich nuclide2element [(''U235'', 1/2), (''U238'', 1/2), (''O16'', 1)]
         [(''U235'', 1/5), (''U238'', 4/5)]
       = Inr [(''U235'', 1/5), (''U238'', 4/5), (''O16'', 1)]"
proof -
  let ?ab = "[(''U235'', 1/2), (''U238'', 1/2), (''O16'', 1)] :: composition"
  let ?en = "[(''U235'', 1/5), (''U238'', 4/5)] :: composition"
  have d: "is_dict ?ab" by (simp add: is_dict_def)
  have s: "?en = (''U235'', 1/5) # [(''U238'', 4/5)]" by simp
  have l: "\<forall>n\<in>set (dict_keys ?ab).
             nuclide2element n = nuclide2element ''U235'' \<longrightarrow> n \<in> set (dict_keys ?en)"
    by (simp add: dict_keys_def nuclide2element_def char_isalpha_def ascii_letters_def)
  from enrich_all_listed [OF d s l] d show ?thesis by simp
qed

text \<open>
  Claim C5 reads: when every entry of \<open>enrichers\<close> is an entry of \<open>abundance\<close>, \<open>enrich\<close>
  returns \<open>abundance\<close>. The third branch divides by the total \<open>S\<close> of the unlisted nuclides of
  the target element also when the excess is zero: with
  \<open>abundance = {U235: 1/2, U238: 0, O16: 1/2}\<close> and \<open>enrichers = {U235: 1/2}\<close> the total
  \<open>S\<close> is zero and the division raises \<^verbatim>\<open>ZeroDivisionError\<close>.
\<close>

theorem enrich_identity_counterexample:
  "enrich nuclide2element [(''U235'', 1/2), (''U238'', 0), (''O16'', 1/2)] [(''U235'', 1/2)]
     = Inl ZeroDivisionError"
  by (simp add: enrich_eval_defs)

text \<open>
  Claim C5, amended. Let \<open>abundance\<close> be a dictionary and \<open>enrichers\<close> be non-empty with
  first key \<open>first\<close>, every entry of \<open>enrichers\<close> being an entry of \<open>abundance\<close>. If the
  total \<open>S\<close> of the unlisted nuclides of the element of \<open>first\<close> is not zero, or there is no
  such unlisted nuclide, then \<open>enrich\<close> returns \<open>abundance\<close>.
\<close>

theorem enrich_identity:
  assumes "is_dict abundance" and "enrichers = (first, v0) # more"
    and "\<forall>(k, v) \<in> set enrichers. map_of abundance k = Some v"
    and "sum_list (enrich_rest n2e (n2e first) abundance enrichers) \<noteq> 0
         \<or> (\<forall>n\<in>set (dict_keys abundance).
               n2e n = n2e first \<longrightarrow> n \<in> set (dict_keys enrichers))"
  shows "enrich n2e abundance enrichers = Inr abundance"
proof -
  have "enrich n2e abundance enrichers = Inr (map (\<lambda>(n, share). (n, share)) abundance)"
  proof (rule enrich_shape [OF assms(1,2)], clarify)
    fix n share assume mem: "(n, share) \<in> set abundance"
    then have key: "n \<in> set (dict_keys abundance)" by (force simp: dict_keys_def)
    from is_dict_lookup [OF assms(1) mem] have a: "map_of abundance n = Some share" .
    show "enrich_value n2e (n2e first) abundance enrichers n share = Inr share"
    proof (cases "n \<in> set (dict_keys enrichers)")
      case True
      from map_of_key_entry [OF this] obtain v where
        v: "map_of enrichers n = Some v" "(n, v) \<in> set enrichers" by blast
      with assms(3) have "map_of abundance n = Some v" by blast
      with a have "v = share" by simp
      with True v show ?thesis by (simp add: enrich_value_def dict_get_Some)
    next
      case False
      show ?thesis
      proof (cases "n2e n = n2e first")
        case other: False
        with \<open>n \<notin> set (dict_keys enrichers)\<close> a show ?thesis
          by (simp add: enrich_value_def dict_get_Some)
      next
        case True
        with False key assms(4)
        have nz: "sum_list (enrich_rest n2e (n2e first) abundance enrichers) \<noteq> 0" by blast
        from enrich_excess_zero [OF assms(3)] obtain ds where
          "enrich_excess abundance enrichers = Inr ds" "sum_list ds = 0" by blast
        with True False a nz show ?thesis
          by (simp add: enrich_value_def dict_get_Some bind_py_simps py_div_def)
      qed
    qed
  qed
  moreover have "map (\<lambda>(n, share). (n, share)) abundance = abundance"
    by (induction abundance) auto
  ultimately show ?thesis by simp
qed

theorem enrich_identity_witness:
  "is_dict ([(''U235'', 1/4), (''U238'', 1/4), (''O16'', 1/2)] :: composition)
   \<and> sum_list (enrich_rest nuclide2element (nuclide2element ''U235'')
         [(''U235'', 1/4), (''U238'', 1/4), (''O16'', 1/2)] [(''U235'', 1/4)]) = 1/4
   \<and> enrich nuclide2element [(''U235'', 1/4), (''U238'', 1/4), (''O16'', 1/2)] [(''U235'', 1/4)]
       = Inr [(''U235'', 1/4), (''U238'', 1/4), (''O16'', 1/2)]"
proof -
  let ?ab = "[(''U235'', 1/4), (''U238'', 1/4), (''O16'', 1/2)] :: composition"
  let ?en = "[(''U235'', 1/4)] :: composition"
  have d: "is_dict ?ab" by (simp add: is_dict_def)
  have s: "?en = (''U235'', 1/4) # []" by simp
  have e: "\<forall>(k, v) \<in> set ?en. map_of ?ab k = Some v" by simp
  have t: "sum_list (enrich_rest nuclide2element (nuclide2element ''U235'') ?ab ?en) = 1/4"
    by (simp add: enrich_rest_def dict_keys_def nuclide2element_def char_isalpha_def
          ascii_letters_def)
  then have nz: "sum_list (enrich_rest nuclide2element (nuclide2element ''U235'') ?ab ?en) \<noteq> 0
     \<or> (\<forall>n\<in>set (dict_keys ?ab).
           nuclide2element n = nuclide2element ''U235'' \<longrightarrow> n \<in> set (dict_keys ?en))"
    by simp
  from enrich_identity [OF d s e nz] d t show ?thesis by simp
qed

lemma enrich_excess_total:
  assumes "set (dict_keys enrichers) \<subseteq> set (dict_keys abundance)"
  shows "enrich_excess abundance enrichers =
           Inr (map (\<lambda>p. snd p - the (map_of abundance (fst p))) enrichers)"
  using assms
proof (induction enrichers)
  case Nil
  then show ?case by simp
next
  case (Cons p enrichers)
  obtain k v where p: "p = (k, v)" by (cases p)
  from Cons.prems p have "k \<in> set (dict_keys abundance)" by (simp add: dict_keys_def)
  from map_of_key_entry [OF this] obtain a where a: "map_of abundance k = Some a" by blast
  from Cons.prems have "set (dict_keys enrichers) \<subseteq> set (dict_keys abundance)"
    by (simp add: dict_keys_def)
  from Cons.IH [OF this] a p show ?case by (simp add: dict_get_Some bind_py_simps)
qed

lemma sum_list_same_keys:
  fixes h :: "'k \<Rightarrow> rat"
  assumes "distinct xs" and "distinct ys" and "set xs = set ys"
  shows "sum_list (map h xs) = sum_list (map h ys)"
  using assms by (simp add: sum_list_distinct_conv_sum_set)

lemma sum_list_filter_split:
  fixes g :: "'a \<Rightarrow> rat"
  shows "sum_list (map g xs) =
           sum_list (map g (filter P xs)) + sum_list (map g (filter (\<lambda>x. \<not> P x) xs))"
  by (induction xs) simp_all

lemma sum_list_rescaled:
  fixes c s :: rat
  shows "sum_list (map (\<lambda>p. snd p - c * snd p / s) xs) =
           sum_list (map snd xs) - c * sum_list (map snd xs) / s"
  by (induction xs) (simp_all add: algebra_simps add_divide_distrib)

lemma filter_entries_map_values:
  "filter (\<lambda>p. P (fst p)) (map (\<lambda>p. (fst p, g p)) xs) =
     map (\<lambda>p. (fst p, g p)) (filter (\<lambda>p. P (fst p)) xs)"
  by (induction xs) simp_all

lemma is_dict_filter: "is_dict d \<Longrightarrow> is_dict (filter P d)"
  by (simp add: is_dict_def distinct_map_filter)

lemma is_dict_entry_value:
  "is_dict d \<Longrightarrow> p \<in> set d \<Longrightarrow> the (map_of d (fst p)) = snd p"
  by (cases p) (simp add: is_dict_def)

text \<open>
  Claim C3. Let \<open>abundance\<close> and \<open>enrichers\<close> be dictionaries, \<open>enrichers\<close> non-empty with
  first key \<open>first\<close>, every key of \<open>enrichers\<close> being a nuclide of the element of \<open>first\<close>
  and a key of \<open>abundance\<close>. If the total \<open>S\<close> of the nuclides of that element in
  \<open>abundance\<close> that are not listed in \<open>enrichers\<close> is not zero, then \<open>enrich\<close> returns a
  mapping whose total over the nuclides of the element equals the total of \<open>abundance\<close>
  over them.
\<close>

theorem enrich_conserves_element:
  assumes d_ab: "is_dict abundance" and d_en: "is_dict enrichers"
    and shape: "enrichers = (first, v0) # more"
    and listed: "\<forall>k\<in>set (dict_keys enrichers).
                   n2e k = n2e first \<and> k \<in> set (dict_keys abundance)"
    and nz: "sum_list (enrich_rest n2e (n2e first) abundance enrichers) \<noteq> 0"
  shows "\<exists>r. enrich n2e abundance enrichers = Inr r
           \<and> element_total n2e (n2e first) r = element_total n2e (n2e first) abundance"
proof -
  define E where "E = n2e first"
  define K where "K = set (dict_keys enrichers)"
  define S where "S = sum_list (enrich_rest n2e E abundance enrichers)"
  define D where "D = sum_list (map (\<lambda>p. snd p - the (map_of abundance (fst p))) enrichers)"
  define g :: "string \<times> rat \<Rightarrow> rat" where
    "g = (\<lambda>p. if fst p \<in> K then the (map_of enrichers (fst p))
              else if n2e (fst p) \<noteq> E then snd p
              else snd p - D * snd p / S)"
  define abE where "abE = filter (\<lambda>p. n2e (fst p) = E) abundance"
  define L where "L = filter (\<lambda>p. fst p \<in> K) abE"
  define U where "U = filter (\<lambda>p. \<not> fst p \<in> K) abE"
  from nz have S0: "S \<noteq> 0" by (simp add: S_def E_def)
  from listed have sub: "set (dict_keys enrichers) \<subseteq> set (dict_keys abundance)" by blast
  have excess: "enrich_excess abundance enrichers =
                  Inr (map (\<lambda>p. snd p - the (map_of abundance (fst p))) enrichers)"
    by (rule enrich_excess_total [OF sub])

  have run: "enrich n2e abundance enrichers =
               Inr (map (\<lambda>(n, share). (n, g (n, share))) abundance)"
  proof (rule enrich_shape [OF d_ab shape], clarify)
    fix n share assume mem: "(n, share) \<in> set abundance"
    from is_dict_lookup [OF d_ab mem] have a: "dict_get abundance n = Inr share"
      by (rule dict_get_Some)
    show "enrich_value n2e (n2e first) abundance enrichers n share = Inr (g (n, share))"
    proof (cases "n \<in> set (dict_keys enrichers)")
      case True
      from map_of_key_entry [OF this] obtain v where "map_of enrichers n = Some v" by blast
      with True show ?thesis by (simp add: enrich_value_def dict_get_Some g_def K_def)
    next
      case False
      show ?thesis
      proof (cases "n2e n = n2e first")
        case other: False
        with \<open>n \<notin> set (dict_keys enrichers)\<close> a show ?thesis
          by (simp add: enrich_value_def g_def K_def E_def)
      next
        case True
        with False a excess S0 show ?thesis
          by (simp add: enrich_value_def bind_py_simps py_div_def g_def K_def E_def S_def D_def)
      qed
    qed
  qed
  define r where "r = map (\<lambda>p. (fst p, g p)) abundance"
  have r_eq: "map (\<lambda>(n, share). (n, g (n, share))) abundance = r"
    by (simp add: r_def case_prod_beta)

  have "filter (\<lambda>p. n2e (fst p) = E) r = map (\<lambda>p. (fst p, g p)) abE"
    unfolding r_def abE_def by (rule filter_entries_map_values [of "\<lambda>k. n2e k = E"])
  then have total_r: "element_total n2e E r = sum_list (map g abE)"
    by (simp add: element_total_def split_def o_def)
  have total_ab: "element_total n2e E abundance = sum_list (map snd abE)"
    by (simp add: element_total_def abE_def split_def)
  have split_g: "sum_list (map g abE) = sum_list (map g L) + sum_list (map g U)"
    unfolding L_def U_def by (rule sum_list_filter_split)
  have split_snd: "sum_list (map snd abE) = sum_list (map snd L) + sum_list (map snd U)"
    unfolding L_def U_def by (rule sum_list_filter_split)

  have U_sum: "sum_list (map snd U) = S"
    by (simp add: U_def abE_def S_def enrich_rest_def K_def split_def conj_commute)
  have "map g U = map (\<lambda>p. snd p - D * snd p / S) U"
    by (rule map_cong) (auto simp: U_def abE_def g_def)
  then have "sum_list (map g U) = sum_list (map (\<lambda>p. snd p - D * snd p / S) U)"
    by (rule arg_cong)
  also have "\<dots> = S - D * S / S"
    by (simp only: sum_list_rescaled U_sum)
  finally have g_U: "sum_list (map g U) = S - D"
    using S0 by simp

  have L_sub: "set L \<subseteq> set abundance" by (auto simp: L_def abE_def)
  have L_dict: "distinct (map fst L)"
    using is_dict_filter [OF is_dict_filter [OF d_ab]] by (simp add: L_def abE_def is_dict_def)
  have en_dist: "distinct (map fst enrichers)" using d_en by (simp add: is_dict_def)
  have L_keys: "set (map fst L) = set (map fst enrichers)"
  proof
    show "set (map fst L) \<subseteq> set (map fst enrichers)"
      by (auto simp: L_def K_def dict_keys_def)
  next
    show "set (map fst enrichers) \<subseteq> set (map fst L)"
    proof
      fix k assume "k \<in> set (map fst enrichers)"
      then have k: "k \<in> set (dict_keys enrichers)" by (simp add: dict_keys_def)
      with listed have e: "n2e k = E" and "k \<in> set (dict_keys abundance)"
        by (auto simp: E_def)
      from map_of_key_entry [OF this(2)] obtain a where "(k, a) \<in> set abundance" by blast
      with e k have "(k, a) \<in> set L" by (simp add: L_def abE_def K_def)
      then show "k \<in> set (map fst L)" by force
    qed
  qed
  have reindex: "sum_list (map (\<lambda>p. h (fst p)) L) = sum_list (map (\<lambda>p. h (fst p)) enrichers)"
    for h :: "string \<Rightarrow> rat"
    using sum_list_same_keys [OF L_dict en_dist L_keys, of h] by (simp add: o_def)

  have "map g L = map (\<lambda>p. the (map_of enrichers (fst p))) L"
    by (rule map_cong) (auto simp: L_def g_def)
  then have "sum_list (map g L) = sum_list (map (\<lambda>p. the (map_of enrichers (fst p))) L)"
    by (rule arg_cong)
  also have "\<dots> = sum_list (map (\<lambda>p. the (map_of enrichers (fst p))) enrichers)"
    by (rule reindex)
  also have "map (\<lambda>p. the (map_of enrichers (fst p))) enrichers = map snd enrichers"
    by (rule map_cong) (simp_all add: is_dict_entry_value [OF d_en])
  finally have g_L: "sum_list (map g L) = sum_list (map snd enrichers)" .

  have "map snd L = map (\<lambda>p. the (map_of abundance (fst p))) L"
  proof (rule map_cong)
    fix p assume "p \<in> set L"
    with L_sub have "p \<in> set abundance" by blast
    from is_dict_entry_value [OF d_ab this] show "snd p = the (map_of abundance (fst p))"
      by simp
  qed simp
  then have "sum_list (map snd L) = sum_list (map (\<lambda>p. the (map_of abundance (fst p))) L)"
    by (rule arg_cong)
  also have "\<dots> = sum_list (map (\<lambda>p. the (map_of abundance (fst p))) enrichers)"
    by (rule reindex)
  finally have snd_L:
    "sum_list (map snd L) = sum_list (map (\<lambda>p. the (map_of abundance (fst p))) enrichers)" .

  have D_eq: "D = sum_list (map snd enrichers) - sum_list (map snd L)"
    by (simp add: D_def sum_list_subtractf snd_L)
  have "element_total n2e E r = element_total n2e E abundance"
    by (simp add: total_r total_ab split_g split_snd g_U g_L U_sum D_eq)
  with run r_eq show ?thesis by (simp add: E_def)
qed

theorem enrich_conserves_element_witness:
  "is_dict ([(''U234'', 1/10), (''U235'', 1/5), (''U238'', 3/10), (''O16'', 2/5)] :: composition)
   \<and> is_dict ([(''U235'', 3/10)] :: composition)
   \<and> sum_list (enrich_rest nuclide2element ''U''
         [(''U234'', 1/10), (''U235'', 1/5), (''U238'', 3/10), (''O16'', 2/5)]
         [(''U235'', 3/10)]) = 2/5
   \<and> enrich nuclide2element [(''U234'', 1/10), (''U235'', 1/5), (''U238'', 3/10), (''O16'', 2/5)]
         [(''U235'', 3/10)]
       = Inr [(''U234'', 3/40), (''U235'', 3/10), (''U238'', 9/40), (''O16'', 2/5)]
   \<and> element_total nuclide2element ''U''
         [(''U234'', 3/40), (''U235'', 3/10), (''U238'', 9/40), (''O16'', 2/5)] = 3/5
   \<and> element_total nuclide2element ''U''
         [(''U234'', 1/10), (''U235'', 1/5), (''U238'', 3/10), (''O16'', 2/5)] = 3/5"
proof -
  let ?ab = "[(''U234'', 1/10), (''U235'', 1/5), (''U238'', 3/10), (''O16'', 2/5)] :: composition"
  let ?en = "[(''U235'', 3/10)] :: composition"
  let ?r = "[(''U234'', 3/40), (''U235'', 3/10), (''U238'', 9/40), (''O16'', 2/5)] :: composition"
  note ev = nuclide2element_def char_isalpha_def ascii_letters_def dict_keys_def
  have el: "nuclide2element ''U235'' = ''U''" by (simp add: ev)
  have d1: "is_dict ?ab" by (simp add: is_dict_def)
  have d2: "is_dict ?en" by (simp add: is_dict_def)
  have s: "?en = (''U235'', 3/10) # []" by simp
  have l: "\<forall>k\<in>set (dict_keys ?en).
             nuclide2element k = nuclide2element ''U235'' \<and> k \<in> set (dict_keys ?ab)"
    by (simp add: dict_keys_def)
  have t: "sum_list (enrich_rest nuclide2element ''U'' ?ab ?en) = 2/5"
    by (simp add: enrich_rest_def ev)
  then have nz: "sum_list (enrich_rest nuclide2element (nuclide2element ''U235'') ?ab ?en) \<noteq> 0"
    by (simp add: el)
  have run: "enrich nuclide2element ?ab ?en = Inr ?r"
    by (simp add: enrich_eval_defs)
  from enrich_conserves_element [OF d1 d2 s l nz] run
  have eq: "element_total nuclide2element ''U'' ?r = element_total nuclide2element ''U'' ?ab"
    by (simp add: el)
  have "element_total nuclide2element ''U'' ?ab = 3/5"
    by (simp add: element_total_def ev)
  with eq d1 d2 t run show ?thesis by simp
qed

section \<open>Composite unfolding\<close>

lemma unfold_element_skip:
  "k \<notin> set (dict_keys split) \<Longrightarrow> map_of (unfold_element share split res) k = map_of res k"
  by (induction split arbitrary: res) (auto simp: dict_keys_def map_of_dict_set)

lemma unfold_element_lookup:
  "is_dict split \<Longrightarrow> map_of split k = Some v \<Longrightarrow>
     map_of (unfold_element share split res) k = Some (v * share)"
proof (induction split arbitrary: res)
  case Nil
  then show ?case by simp
next
  case (Cons p split)
  obtain k' v' where p: "p = (k', v')" by (cases p)
  from Cons.prems(1) p have d: "is_dict split" and fresh: "k' \<notin> set (dict_keys split)"
    by (simp_all add: is_dict_def dict_keys_def)
  show ?case
  proof (cases "k = k'")
    case True
    with Cons.prems(2) p have "v' = v" by simp
    with True p fresh show ?thesis by (simp add: unfold_element_skip map_of_dict_set)
  next
    case False
    with Cons.prems(2) p have "map_of split k = Some v" by simp
    from Cons.IH [OF d this] p show ?thesis by simp
  qed
qed

lemma unfold_element_append:
  "distinct (dict_keys res @ dict_keys split) \<Longrightarrow>
     unfold_element share split res = res @ map (\<lambda>(k, v). (k, v * share)) split"
proof (induction split arbitrary: res)
  case Nil
  then show ?case by simp
next
  case (Cons p split)
  obtain k v where p: "p = (k, v)" by (cases p)
  from Cons.prems p have "k \<notin> fst ` set res" by (auto simp: dict_keys_def)
  then have app: "dict_set res k (v * share) = res @ [(k, v * share)]" by (rule dict_set_append)
  from Cons.prems p have "distinct (dict_keys (res @ [(k, v * share)]) @ dict_keys split)"
    by (auto simp: dict_keys_def)
  from Cons.IH [OF this] p app show ?case by simp
qed

lemma unfold_loop_append_items:
  "unfold_loop natural (xs @ ys) res =
     bind_py (unfold_loop natural xs res) (\<lambda>r. unfold_loop natural ys r)"
  by (induction xs arbitrary: res) (auto simp: bind_py_simps split: option.splits)

lemma unfold_loop_total:
  "\<forall>e\<in>set (dict_keys items). natural e \<noteq> None \<Longrightarrow>
     \<exists>r. unfold_loop natural items res = Inr r"
  by (induction items arbitrary: res) (auto simp: dict_keys_def)

lemma unfold_loop_skip:
  assumes "\<forall>e\<in>set (dict_keys items). \<forall>sp. natural e = Some sp \<longrightarrow> k \<notin> set (dict_keys sp)"
    and "unfold_loop natural items res = Inr r"
  shows "map_of r k = map_of res k"
  using assms
proof (induction items arbitrary: res)
  case Nil
  then show ?case by simp
next
  case (Cons p items)
  obtain e share where p: "p = (e, share)" by (cases p)
  from Cons.prems(2) p obtain sp where sp: "natural e = Some sp"
    and rest: "unfold_loop natural items (unfold_element share sp res) = Inr r"
    by (auto split: option.splits)
  from Cons.prems(1) p sp have "k \<notin> set (dict_keys sp)" by (simp add: dict_keys_def)
  then have here: "map_of (unfold_element share sp res) k = map_of res k"
    by (rule unfold_element_skip)
  from Cons.prems(1) have
    "\<forall>e\<in>set (dict_keys items). \<forall>sp. natural e = Some sp \<longrightarrow> k \<notin> set (dict_keys sp)"
    by (simp add: dict_keys_def)
  from Cons.IH [OF this rest] here show ?case by simp
qed

lemma unfold_loop_sum:
  assumes "is_dict res" and "distinct (dict_keys items)"
    and "\<forall>e\<in>set (dict_keys items). \<exists>sp. natural e = Some sp \<and> is_dict sp
            \<and> sum_list (dict_values sp) = 1
            \<and> set (dict_keys sp) \<inter> set (dict_keys res) = {}"
    and "\<forall>e1\<in>set (dict_keys items). \<forall>e2\<in>set (dict_keys items). e1 \<noteq> e2 \<longrightarrow>
           (\<forall>sp1 sp2. natural e1 = Some sp1 \<longrightarrow> natural e2 = Some sp2 \<longrightarrow>
              set (dict_keys sp1) \<inter> set (dict_keys sp2) = {})"
  shows "\<exists>r. unfold_loop natural items res = Inr r
           \<and> sum_list (dict_values r) = sum_list (dict_values res) + sum_list (dict_values items)"
  using assms
proof (induction items arbitrary: res)
  case Nil
  then show ?case by (simp add: dict_values_def)
next
  case (Cons p items)
  obtain e share where p: "p = (e, share)" by (cases p)
  from Cons.prems(3) p obtain sp where sp: "natural e = Some sp" and d_sp: "is_dict sp"
    and one: "sum_list (dict_values sp) = 1"
    and fresh: "set (dict_keys sp) \<inter> set (dict_keys res) = {}"
    by (auto simp: dict_keys_def)
  let ?res = "res @ map (\<lambda>(k, v). (k, v * share)) sp"
  have keys_scaled: "map (fst \<circ> (\<lambda>(k, v). (k, v * share))) sp = map fst sp"
    by (induction sp) auto
  from Cons.prems(1) d_sp fresh have dist: "distinct (dict_keys res @ dict_keys sp)"
    by (auto simp: is_dict_def dict_keys_def)
  then have step: "unfold_element share sp res = ?res" by (rule unfold_element_append)
  from dist have d_res: "is_dict ?res"
    by (simp add: is_dict_def dict_keys_def keys_scaled)
  have keys_res: "set (dict_keys ?res) = set (dict_keys res) \<union> set (dict_keys sp)"
    by (simp add: dict_keys_def keys_scaled)
  have "sum_list (dict_values (map (\<lambda>(k, v). (k, v * share)) sp))
          = sum_list (dict_values sp) * share"
    by (induction sp) (auto simp: dict_values_def algebra_simps)
  with one have sum_res: "sum_list (dict_values ?res) = sum_list (dict_values res) + share"
    by (simp add: dict_values_def)
  from Cons.prems(2) p have dist_items: "distinct (dict_keys items)"
    and e_new: "e \<notin> set (dict_keys items)" by (simp_all add: dict_keys_def)
  have inv3: "\<forall>e'\<in>set (dict_keys items). \<exists>sp'. natural e' = Some sp' \<and> is_dict sp'
            \<and> sum_list (dict_values sp') = 1
            \<and> set (dict_keys sp') \<inter> set (dict_keys ?res) = {}"
  proof
    fix e' assume e': "e' \<in> set (dict_keys items)"
    with Cons.prems(3) obtain sp' where sp': "natural e' = Some sp'" "is_dict sp'"
      "sum_list (dict_values sp') = 1" "set (dict_keys sp') \<inter> set (dict_keys res) = {}"
      by (auto simp: dict_keys_def)
    from e' e_new have "e' \<noteq> e" by blast
    moreover from e' have "e' \<in> set (dict_keys (p # items))" by (simp add: dict_keys_def)
    moreover from p have "e \<in> set (dict_keys (p # items))" by (simp add: dict_keys_def)
    ultimately have "set (dict_keys sp') \<inter> set (dict_keys sp) = {}"
      using Cons.prems(4) sp sp'(1) by blast
    with sp' keys_res show "\<exists>sp'. natural e' = Some sp' \<and> is_dict sp'
            \<and> sum_list (dict_values sp') = 1
            \<and> set (dict_keys sp') \<inter> set (dict_keys ?res) = {}" by blast
  qed
  from Cons.prems(4) have inv4:
    "\<forall>e1\<in>set (dict_keys items). \<forall>e2\<in>set (dict_keys items). e1 \<noteq> e2 \<longrightarrow>
           (\<forall>sp1 sp2. natural e1 = Some sp1 \<longrightarrow> natural e2 = Some sp2 \<longrightarrow>
              set (dict_keys sp1) \<inter> set (dict_keys sp2) = {})"
    by (simp add: dict_keys_def)
  from Cons.IH [OF d_res dist_items inv3 inv4] obtain r where
    "unfold_loop natural items ?res = Inr r"
    "sum_list (dict_values r) = sum_list (dict_values ?res) + sum_list (dict_values items)"
    by blast
  with sp p step sum_res show ?case by (simp add: dict_values_def)
qed

text \<open>
  Claim C8. Let the composite list the element \<open>e1\<close> before the element \<open>e2\<close>, all of its
  elements being known to the table, and let the nuclide \<open>k\<close> occur in the natural splits
  of both, with fraction \<open>v2\<close> in the split of \<open>e2\<close>, and in the split of no element
  listed after \<open>e2\<close>. Then \<open>unfold_composite\<close> returns a mapping that sends \<open>k\<close> to
  \<open>v2 * s2\<close>, the contribution of the later element alone: the contribution of \<open>e1\<close> is
  overwritten, not added.
\<close>

theorem unfold_composite_later_wins:
  assumes order: "composite = before @ (e1, s1) # between @ (e2, s2) # after"
    and known: "\<forall>e\<in>set (dict_keys composite). natural e \<noteq> None"
    and first: "natural e1 = Some split1" "map_of split1 k = Some v1"
    and second: "natural e2 = Some split2" "is_dict split2" "map_of split2 k = Some v2"
    and last: "\<forall>e\<in>set (dict_keys after). \<forall>sp. natural e = Some sp \<longrightarrow> k \<notin> set (dict_keys sp)"
  shows "\<exists>r. unfold_composite natural composite = Inr r \<and> map_of r k = Some (v2 * s2)"
proof -
  let ?front = "before @ (e1, s1) # between"
  from known order have "\<forall>e\<in>set (dict_keys ?front). natural e \<noteq> None"
    by (auto simp: dict_keys_def)
  from unfold_loop_total [OF this] obtain r1 where
    r1: "unfold_loop natural ?front [] = Inr r1" by blast
  from known order have "\<forall>e\<in>set (dict_keys after). natural e \<noteq> None"
    by (auto simp: dict_keys_def)
  from unfold_loop_total [OF this] obtain r where
    r: "unfold_loop natural after (unfold_element s2 split2 r1) = Inr r" by blast
  have "composite = ?front @ (e2, s2) # after" using order by simp
  then have run: "unfold_composite natural composite = Inr r"
    using r1 r second(1)
    by (simp add: unfold_composite_def unfold_loop_append_items bind_py_simps
          del: append_assoc)
  from unfold_loop_skip [OF last r]
  have "map_of r k = map_of (unfold_element s2 split2 r1) k" .
  also have "\<dots> = Some (v2 * s2)" by (rule unfold_element_lookup [OF second(2,3)])
  finally show ?thesis using run by blast
qed

theorem unfold_composite_later_wins_witness:
  "unfold_composite
      (map_of [(''H'', [(''H1'', 99/100), (''H2'', 1/100)]), (''D'', [(''H2'', 1)])])
      [(''H'', 1/2), (''D'', 1/2)]
     = Inr [(''H1'', 99/200), (''H2'', 1/2)]
   \<and> (\<exists>r. unfold_composite
            (map_of [(''H'', [(''H1'', 99/100), (''H2'', 1/100)]), (''D'', [(''H2'', 1)])])
            [(''H'', 1/2), (''D'', 1/2)] = Inr r
          \<and> map_of r ''H2'' = Some (1 * (1/2)))"
proof -
  let ?natural = "map_of [(''H'', [(''H1'', 99/100), (''H2'', 1/100)]), (''D'', [(''H2'', 1)])]
                    :: string \<Rightarrow> composition option"
  let ?composite = "[(''H'', 1/2), (''D'', 1/2)] :: composition"
  have order: "?composite = [] @ (''H'', 1/2) # [] @ (''D'', 1/2) # []" by simp
  have known: "\<forall>e\<in>set (dict_keys ?composite). ?natural e \<noteq> None"
    by (simp add: dict_keys_def)
  have h: "?natural ''H'' = Some [(''H1'', 99/100), (''H2'', 1/100)]" by simp
  have h2: "map_of [(''H1'', 99/100), (''H2'', 1/100 :: rat)] ''H2'' = Some (1/100)" by simp
  have d: "?natural ''D'' = Some [(''H2'', 1)]" by simp
  have dd: "is_dict [(''H2'', 1 :: rat)]" by (simp add: is_dict_def)
  have d2: "map_of [(''H2'', 1 :: rat)] ''H2'' = Some 1" by simp
  have last: "\<forall>e\<in>set (dict_keys ([] :: composition)).
                \<forall>sp. ?natural e = Some sp \<longrightarrow> ''H2'' \<notin> set (dict_keys sp)"
    by (simp add: dict_keys_def)
  note inst = unfold_composite_later_wins [OF order known h h2 d dd d2 last]
  have run: "unfold_composite ?natural ?composite = Inr [(''H1'', 99/200), (''H2'', 1/2)]"
    by (simp add: unfold_composite_def)
  from run inst show ?thesis by (intro conjI)
qed

text \<open>
  Claim C7. Let \<open>composite\<close> be a dictionary whose elements all have an entry in the
  natural-abundance table. The table is well formed: each entry is a dictionary whose
  fractions sum to 1, and it lists nuclides of its own element only (\<open>n2e\<close> sends each of
  its nuclide symbols to the element). Then \<open>unfold_composite\<close> returns a mapping whose
  values sum to the sum of the values of \<open>composite\<close>.
\<close>

theorem unfold_composite_conserves:
  assumes "is_dict composite"
    and "\<forall>e\<in>set (dict_keys composite). \<exists>sp. natural e = Some sp \<and> is_dict sp
            \<and> sum_list (dict_values sp) = 1
            \<and> (\<forall>k\<in>set (dict_keys sp). n2e k = e)"
  shows "\<exists>r. unfold_composite natural composite = Inr r
           \<and> sum_list (dict_values r) = sum_list (dict_values composite)"
proof -
  have e: "is_dict ([] :: composition)" by (simp add: is_dict_def)
  from assms(1) have d: "distinct (dict_keys composite)" by (simp add: is_dict_def dict_keys_def)
  from assms(2) have k: "\<forall>e\<in>set (dict_keys composite). \<exists>sp. natural e = Some sp \<and> is_dict sp
            \<and> sum_list (dict_values sp) = 1
            \<and> set (dict_keys sp) \<inter> set (dict_keys ([] :: composition)) = {}"
    by (simp add: dict_keys_def) blast
  have c: "\<forall>e1\<in>set (dict_keys composite). \<forall>e2\<in>set (dict_keys composite). e1 \<noteq> e2 \<longrightarrow>
           (\<forall>sp1 sp2. natural e1 = Some sp1 \<longrightarrow> natural e2 = Some sp2 \<longrightarrow>
              set (dict_keys sp1) \<inter> set (dict_keys sp2) = {})"
  proof (intro ballI impI allI)
    fix e1 e2 sp1 sp2
    assume e1: "e1 \<in> set (dict_keys composite)" and e2: "e2 \<in> set (dict_keys composite)"
      and ne: "e1 \<noteq> e2" and s1: "natural e1 = Some sp1" and s2: "natural e2 = Some sp2"
    from assms(2) e1 s1 have o1: "\<forall>k\<in>set (dict_keys sp1). n2e k = e1" by fastforce
    from assms(2) e2 s2 have o2: "\<forall>k\<in>set (dict_keys sp2). n2e k = e2" by fastforce
    show "set (dict_keys sp1) \<inter> set (dict_keys sp2) = {}"
    proof (rule ccontr)
      assume "set (dict_keys sp1) \<inter> set (dict_keys sp2) \<noteq> {}"
      then obtain k where "k \<in> set (dict_keys sp1)" "k \<in> set (dict_keys sp2)" by blast
      with o1 o2 have "e1 = e2" by auto
      with ne show False by simp
    qed
  qed
  from unfold_loop_sum [OF e d k c] show ?thesis
    by (simp add: unfold_composite_def dict_values_def)
qed

theorem unfold_composite_conserves_witness:
  "is_dict ([(''H'', 2/3), (''O'', 1/3)] :: composition)
   \<and> list_all (\<lambda>k. nuclide2element k = ''H'') (dict_keys [(''H1'', 99/100 :: rat), (''H2'', 1/100)])
   \<and> list_all (\<lambda>k. nuclide2element k = ''O'') (dict_keys [(''O16'', 1 :: rat)])
   \<and> unfold_composite
        (map_of [(''H'', [(''H1'', 99/100), (''H2'', 1/100)]), (''O'', [(''O16'', 1)])])
        [(''H'', 2/3), (''O'', 1/3)]
       = Inr [(''H1'', 33/50), (''H2'', 1/150), (''O16'', 1/3)]
   \<and> sum_list (dict_values [(''H1'', 33/50 :: rat), (''H2'', 1/150), (''O16'', 1/3)])
       = sum_list (dict_values [(''H'', 2/3 :: rat), (''O'', 1/3)])"
proof -
  let ?natural = "map_of [(''H'', [(''H1'', 99/100), (''H2'', 1/100)]), (''O'', [(''O16'', 1)])]
                    :: string \<Rightarrow> composition option"
  let ?composite = "[(''H'', 2/3), (''O'', 1/3)] :: composition"
  note ev = nuclide2element_def char_isalpha_def ascii_letters_def dict_keys_def
  have d: "is_dict ?composite" by (simp add: is_dict_def)
  have oh: "list_all (\<lambda>k. nuclide2element k = ''H'')
              (dict_keys [(''H1'', 99/100 :: rat), (''H2'', 1/100)])" by (simp add: ev)
  have oo: "list_all (\<lambda>k. nuclide2element k = ''O'') (dict_keys [(''O16'', 1 :: rat)])"
    by (simp add: ev)
  have k: "\<forall>e\<in>set (dict_keys ?composite). \<exists>sp. ?natural e = Some sp \<and> is_dict sp
            \<and> sum_list (dict_values sp) = 1
            \<and> (\<forall>k\<in>set (dict_keys sp). nuclide2element k = e)"
    by (simp add: ev is_dict_def dict_values_def)
  have run: "unfold_composite ?natural ?composite
               = Inr [(''H1'', 33/50), (''H2'', 1/150), (''O16'', 1/3)]"
    by (simp add: unfold_composite_def)
  from unfold_composite_conserves [OF d k] obtain r where
    r: "unfold_composite ?natural ?composite = Inr r"
    and s: "sum_list (dict_values r) = sum_list (dict_values ?composite)" by (elim exE conjE)
  from r [symmetric] run
  have "Inr r = (Inr [(''H1'', 33/50), (''H2'', 1/150), (''O16'', 1/3)] :: py_error + composition)"
    by (rule trans)
  then have "r = [(''H1'', 33/50), (''H2'', 1/150), (''O16'', 1/3)]" by (rule Inr_inject)
  with s have "sum_list (dict_values [(''H1'', 33/50 :: rat), (''H2'', 1/150), (''O16'', 1/3)])
       = sum_list (dict_values ?composite)" by (simp only:)
  with d oh oo run show ?thesis by (intro conjI)
qed

end
